theory Spec2Isabelle
  imports Main
begin

section \<open>The echo and broadcast server of dummy_server.py\<close>

text \<open>
  The program is one Python file: a function \<^verbatim>\<open>read(socket)\<close> that drains a
  non-blocking socket, and \<^verbatim>\<open>main()\<close>, an endless poll loop over a selector that
  accepts connections, reads from readable ones, and sends a fixed text to every
  client after each poll.

  Socket objects are handles (natural numbers); Python compares them by identity.
  Bytes objects are lists of characters (a \<^typ>\<open>char\<close> is one byte).
  What the operating system answers is an input of the model: every event of a poll
  carries what \<^verbatim>\<open>accept\<close> would do (return an address or raise) and the results of
  the successive \<^verbatim>\<open>recv\<close> calls, and every poll says on which sockets \<^verbatim>\<open>send\<close>
  raises. Everything the program does to the outside (printing, a \<^verbatim>\<open>send\<close> that
  returned, closing, registering) is appended to a trace, in the order of execution.
\<close>

subsection \<open>Data\<close>

type_synonym sock = nat
type_synonym bytes = string
type_synonym address = "string \<times> nat"

text \<open>
  The exceptions that occur. A value stands for an instance of the class of that
  name and, where it is the second argument of \<open>isinstance\<close>, for the class itself;
  \<open>OSError\<close> as an instance is an \<^verbatim>\<open>OSError\<close> of no subclass modelled here.
  In Python \<^verbatim>\<open>BlockingIOError\<close> and \<^verbatim>\<open>ConnectionResetError\<close> are subclasses of
  \<^verbatim>\<open>OSError\<close>; the other three are not.
\<close>

datatype exn =
  BlockingIOError | ConnectionResetError | OSError | AttributeError | KeyError | ValueError

fun isinstance :: "exn \<Rightarrow> exn \<Rightarrow> bool" where
  "isinstance e c =
     (e = c \<or> (c = OSError \<and> (e = BlockingIOError \<or> e = ConnectionResetError)))"

text \<open>What one call \<^verbatim>\<open>socket.recv(RECV_MAX)\<close> does: return bytes or raise.\<close>

datatype recv_outcome = Recv bytes | RecvRaises exn

text \<open>The lines the program prints.\<close>

datatype printed =
  Text string
| GotSocket sock address
| Got bytes

datatype effect =
  Print printed
| Send sock bytes
| Close sock
| Register sock
| Unregister sock

record state =
  server :: sock
  registered :: "sock set"
  clients :: "sock list"
  closed :: "sock set"
  next_sock :: sock
  trace :: "effect list"

text \<open>
  A statement returns a value in a new state, raises an exception in the state
  reached so far, or is still running when the recorded answers of the operating
  system end (\<open>Unfinished\<close>).
\<close>

datatype 'a outcome = Returns 'a state | Raises exn state | Unfinished

text \<open>
  A readiness event: the object that is ready, what \<^verbatim>\<open>accept\<close> on it does (used when
  it is the listening socket) and what the \<^verbatim>\<open>recv\<close> calls on it do (used otherwise).
\<close>

datatype event =
  Event (fileobj: sock) (accepted: "exn + address") (recvs: "recv_outcome list")

text \<open>
  One poll: the descriptors the operating system reports ready, and the sockets on
  which \<^verbatim>\<open>send\<close> raises during the broadcast that follows, with the exception.
\<close>

datatype poll = Poll (ready: "event list") (send_raises: "sock \<rightharpoonup> exn")

subsection \<open>The read operation (lines 5 to 38)\<close>

definition RECV_MAX :: nat where
  "RECV_MAX = 4000"

text \<open>\<^verbatim>\<open>recv\<close> on a socket that was closed raises \<^verbatim>\<open>OSError\<close> (bad file descriptor).\<close>

fun sock_recv :: "bool \<Rightarrow> recv_outcome \<Rightarrow> recv_outcome" where
  "sock_recv is_closed r = (if is_closed then RecvRaises OSError else r)"

text \<open>
  How the body of the \<^verbatim>\<open>try\<close> ends: by \<^verbatim>\<open>break\<close>, with the value of
  \<^verbatim>\<open>has_eof\<close>, or by an exception of \<^verbatim>\<open>recv\<close>.
\<close>

datatype loop_exit = Broke bool | Raised exn

text \<open>
  The \<^verbatim>\<open>while True\<close> loop of lines 14 to 23, with \<^verbatim>\<open>db\<close> and the lines printed
  so far as accumulators. The list holds the results of the \<^verbatim>\<open>recv\<close> calls to come;
  when it is used up and the loop would call \<^verbatim>\<open>recv\<close> again the result is \<open>None\<close>.
\<close>

fun recv_loop ::
  "bool \<Rightarrow> recv_outcome list \<Rightarrow> bytes \<Rightarrow> printed list
    \<Rightarrow> (loop_exit \<times> bytes \<times> printed list) option" where
  "recv_loop is_closed [] db out = None"
| "recv_loop is_closed (r # rs) db out =
     (case sock_recv is_closed r of
        RecvRaises e \<Rightarrow> Some (Raised e, db, out)
      | Recv data \<Rightarrow>
          (let db' = db @ data in
           if length data = 0 then Some (Broke True, db', out @ [Text ''EOF condition reached''])
           else if length data < RECV_MAX then Some (Broke False, db', out)
           else recv_loop is_closed rs db' out))"

definition print :: "printed \<Rightarrow> state \<Rightarrow> state" where
  "print p st = st\<lparr>trace := trace st @ [Print p]\<rparr>"

text \<open>\<^verbatim>\<open>socket.close()\<close>; closing a closed socket does nothing more and raises nothing.\<close>

definition sock_close :: "sock \<Rightarrow> state \<Rightarrow> state" where
  "sock_close s st = st\<lparr>closed := insert s (closed st), trace := trace st @ [Close s]\<rparr>"

text \<open>Lines 34 to 38: close on end of stream, return the pair.\<close>

definition read_return :: "bool \<Rightarrow> bytes \<Rightarrow> sock \<Rightarrow> state \<Rightarrow> (bool \<times> bytes) outcome" where
  "read_return has_eof db s st =
     Returns (has_eof, db) (if has_eof then sock_close s st else st)"

text \<open>
  The \<^verbatim>\<open>except\<close> clauses are tried in the order of the source: \<^verbatim>\<open>BlockingIOError\<close>,
  then \<^verbatim>\<open>OSError\<close>, then \<^verbatim>\<open>ConnectionResetError\<close>; an exception that matches none
  leaves \<^verbatim>\<open>read\<close>.
\<close>

definition read :: "sock \<Rightarrow> recv_outcome list \<Rightarrow> state \<Rightarrow> (bool \<times> bytes) outcome" where
  "read s rs st =
     (case recv_loop (s \<in> closed st) rs [] [] of
        None \<Rightarrow> Unfinished
      | Some (ex, db, out) \<Rightarrow>
          (let st1 = st\<lparr>trace := trace st @ map Print out\<rparr> in
           case ex of
             Broke has_eof \<Rightarrow> read_return has_eof db s st1
           | Raised e \<Rightarrow>
               if isinstance e BlockingIOError then
                 read_return False db s (print (Text ''Got a BlockingIOError in read() call.'') st1)
               else if isinstance e OSError then
                 read_return True db s (print (Text ''Got an OSError in read() call.'') st1)
               else if isinstance e ConnectionResetError then
                 read_return True db s
                   (print (Text ''Got a ConnectionResetError in read() call.'') st1)
               else Raises e st1))"

subsection \<open>The selector and the socket calls of main\<close>

text \<open>
  \<^verbatim>\<open>sel.register\<close> raises \<^verbatim>\<open>KeyError\<close> for an object that is registered and
  \<^verbatim>\<open>ValueError\<close> for a closed one; \<^verbatim>\<open>sel.unregister\<close> finds a registered object also
  after it was closed, and raises \<^verbatim>\<open>ValueError\<close> for a closed object that is not
  registered, \<^verbatim>\<open>KeyError\<close> for an open one.
\<close>

definition sel_register :: "sock \<Rightarrow> state \<Rightarrow> unit outcome" where
  "sel_register s st =
     (if s \<in> registered st then Raises KeyError st
      else if s \<in> closed st then Raises ValueError st
      else Returns () (st\<lparr>registered := insert s (registered st),
                           trace := trace st @ [Register s]\<rparr>))"

definition sel_unregister :: "sock \<Rightarrow> state \<Rightarrow> unit outcome" where
  "sel_unregister s st =
     (if s \<in> registered st then
        Returns () (st\<lparr>registered := registered st - {s}, trace := trace st @ [Unregister s]\<rparr>)
      else if s \<in> closed st then Raises ValueError st
      else Raises KeyError st)"

text \<open>
  Line 72 calls \<^verbatim>\<open>s.write(data)\<close>. A \<^verbatim>\<open>socket.socket\<close> object has no attribute
  \<^verbatim>\<open>write\<close> (it has \<^verbatim>\<open>send\<close> and \<^verbatim>\<open>sendall\<close>), so evaluating \<^verbatim>\<open>s.write\<close> raises
  \<^verbatim>\<open>AttributeError\<close> before anything is called.
\<close>

definition sock_write :: "sock \<Rightarrow> bytes \<Rightarrow> state \<Rightarrow> unit outcome" where
  "sock_write s data st = Raises AttributeError st"

text \<open>
  \<^verbatim>\<open>client.send(b)\<close>. On a closed socket it raises \<^verbatim>\<open>OSError\<close>; otherwise the
  operating system decides whether it raises (the connection was reset, the buffer
  is full). The trace records the bytes passed to a call that returned.
\<close>

definition sock_send :: "(sock \<rightharpoonup> exn) \<Rightarrow> sock \<Rightarrow> bytes \<Rightarrow> state \<Rightarrow> unit outcome" where
  "sock_send raises s b st =
     (if s \<in> closed st then Raises OSError st
      else case raises s of
             Some e \<Rightarrow> Raises e st
           | None \<Rightarrow> Returns () (st\<lparr>trace := trace st @ [Send s b]\<rparr>))"

text \<open>
  \<^verbatim>\<open>sel.select\<close> returns an event for a ready descriptor only if an object is
  registered under it.
\<close>

definition sel_select :: "event list \<Rightarrow> state \<Rightarrow> event list" where
  "sel_select rdy st = filter (\<lambda>ev. fileobj ev \<in> registered st) rdy"

text \<open>\<^verbatim>\<open>while s in clients: clients.remove(s)\<close> (lines 76 and 77).\<close>

function remove_while :: "sock \<Rightarrow> sock list \<Rightarrow> sock list" where
  "remove_while s cs = (if s \<in> set cs then remove_while s (remove1 s cs) else cs)"
  by pat_completeness auto
termination
  by (relation "measure (\<lambda>(s, cs). length cs)")
    (auto simp: length_remove1 dest!: length_pos_if_in_set)

declare remove_while.simps [simp del]

subsection \<open>The main loop (lines 40 to 80)\<close>

definition PAYLOAD :: bytes where
  "PAYLOAD = ''Lorem ipsum quod ecit sit dolor remen.  Amputate mixed bias is confusing and inadequate, but spindrift accumulation has been allowing the issue to go unnoticed for the past several thousand head of sheep in a herd where x is not negative.  If x is negative, go to page 99999999999.''
    @ [CHR 0x0A] @ ''This is line two of a two-line message.  Welcome to the future!''
    @ [CHR 0x0A] @ ''Sorry, we were just kidding.  It'' @ [CHR 0x27] @ ''s actually three lines...''
    @ [CHR 0x0A]"

text \<open>
  The state when the loop is entered (lines 41 to 56): the listening socket is
  handle 0 and registered, there are no clients.
\<close>

definition init :: state where
  "init = \<lparr>server = 0, registered = {0}, clients = [], closed = {}, next_sock = 1,
            trace = [Register 0, Print (Text ''Listening on localhost:7072.'')]\<rparr>"

text \<open>
  The body of the \<^verbatim>\<open>for key, mask in events\<close> loop (lines 60 to 77).
  \<^verbatim>\<open>accept\<close> raises, or returns a socket object that did not exist before.
\<close>

definition handle_event :: "event \<Rightarrow> state \<Rightarrow> unit outcome" where
  "handle_event ev st =
     (let s = fileobj ev in
      if s = server st then
        (case accepted ev of
           Inl e \<Rightarrow> Raises e st
         | Inr address \<Rightarrow>
             (let connection = next_sock st;
                  st1 = st\<lparr>next_sock := Suc connection\<rparr>
              in case sel_register connection st1 of
                   Returns u st2 \<Rightarrow>
                     Returns () (print (GotSocket connection address)
                                   (st2\<lparr>clients := clients st2 @ [connection]\<rparr>))
                 | Raises e st2 \<Rightarrow> Raises e st2
                 | Unfinished \<Rightarrow> Unfinished))
      else
        (case read s (recvs ev) st of
           Unfinished \<Rightarrow> Unfinished
         | Raises e st1 \<Rightarrow> Raises e st1
         | Returns (eof, data) st1 \<Rightarrow>
             (case (if \<not> eof then
                      (case sock_write s data st1 of
                         Returns u st2 \<Rightarrow> Returns () (print (Got data) st2)
                       | Raises e st2 \<Rightarrow> Raises e st2
                       | Unfinished \<Rightarrow> Unfinished)
                    else Returns () st1) of
                Unfinished \<Rightarrow> Unfinished
              | Raises e st2 \<Rightarrow> Raises e st2
              | Returns u st2 \<Rightarrow>
                  if eof then
                    (case sel_unregister s st2 of
                       Returns u st3 \<Rightarrow> Returns () (st3\<lparr>clients := remove_while s (clients st3)\<rparr>)
                     | Raises e st3 \<Rightarrow> Raises e st3
                     | Unfinished \<Rightarrow> Unfinished)
                  else Returns () st2)))"

fun process_events :: "event list \<Rightarrow> state \<Rightarrow> unit outcome" where
  "process_events [] st = Returns () st"
| "process_events (ev # evs) st =
     (case handle_event ev st of
        Returns u st1 \<Rightarrow> process_events evs st1
      | Raises e st1 \<Rightarrow> Raises e st1
      | Unfinished \<Rightarrow> Unfinished)"

text \<open>
  Lines 79 and 80: \<^verbatim>\<open>for client in clients: client.send(...)\<close>. An exception of
  \<^verbatim>\<open>send\<close> is not caught: it ends the loop over the clients and leaves \<^verbatim>\<open>main\<close>.
\<close>

fun send_all :: "(sock \<rightharpoonup> exn) \<Rightarrow> sock list \<Rightarrow> state \<Rightarrow> unit outcome" where
  "send_all raises [] st = Returns () st"
| "send_all raises (client # cs) st =
     (case sock_send raises client PAYLOAD st of
        Returns u st1 \<Rightarrow> send_all raises cs st1
      | Raises e st1 \<Rightarrow> Raises e st1
      | Unfinished \<Rightarrow> Unfinished)"

definition broadcast :: "(sock \<rightharpoonup> exn) \<Rightarrow> state \<Rightarrow> unit outcome" where
  "broadcast raises st = send_all raises (clients st) st"

text \<open>One iteration of \<^verbatim>\<open>while True\<close> (lines 58 to 80).\<close>

definition cycle :: "poll \<Rightarrow> state \<Rightarrow> unit outcome" where
  "cycle p st =
     (let events = sel_select (ready p) st in
      case process_events events st of
        Returns u st1 \<Rightarrow> broadcast (send_raises p) st1
      | Raises e st1 \<Rightarrow> Raises e st1
      | Unfinished \<Rightarrow> Unfinished)"

text \<open>
  The loop, for the polls recorded in the list; \<open>Returns\<close> is the state at the top of
  the iteration that follows them (the loop itself has no exit but an exception).
\<close>

fun main_loop :: "poll list \<Rightarrow> state \<Rightarrow> unit outcome" where
  "main_loop [] st = Returns () st"
| "main_loop (p # polls) st =
     (case cycle p st of
        Returns u st1 \<Rightarrow> main_loop polls st1
      | Raises e st1 \<Rightarrow> Raises e st1
      | Unfinished \<Rightarrow> Unfinished)"

subsection \<open>Observing a run\<close>

text \<open>The state in which a statement stopped, whether it returned or raised.\<close>

fun final_state :: "'a outcome \<Rightarrow> state option" where
  "final_state (Returns v st) = Some st"
| "final_state (Raises e st) = Some st"
| "final_state Unfinished = None"

text \<open>
  The states in which the broadcast of lines 79 and 80 starts, one for every
  iteration of the main loop that gets there.
\<close>

fun broadcast_points :: "poll list \<Rightarrow> state \<Rightarrow> state list" where
  "broadcast_points [] st = []"
| "broadcast_points (p # polls) st =
     (case process_events (sel_select (ready p) st) st of
        Returns u st1 \<Rightarrow>
          st1 # (case broadcast (send_raises p) st1 of
                   Returns u st2 \<Rightarrow> broadcast_points polls st2
                 | Raises e st2 \<Rightarrow> []
                 | Unfinished \<Rightarrow> [])
      | Raises e st1 \<Rightarrow> []
      | Unfinished \<Rightarrow> [])"

text \<open>
  The bookkeeping of the loop: the client list holds exactly the registered sockets
  other than the listening one, no registered socket is closed, and the handles in
  use lie below the next one \<^verbatim>\<open>accept\<close> will return.
\<close>

definition conn_inv :: "state \<Rightarrow> bool" where
  "conn_inv st \<longleftrightarrow>
     set (clients st) = registered st - {server st}
     \<and> server st \<in> registered st
     \<and> registered st \<inter> closed st = {}
     \<and> (\<forall>x \<in> registered st \<union> closed st. x < next_sock st)"

text \<open>All calls of \<^verbatim>\<open>send\<close> in a trace, in order.\<close>

fun sends :: "effect list \<Rightarrow> (sock \<times> bytes) list" where
  "sends [] = []"
| "sends (Send c b # es) = (c, b) # sends es"
| "sends (e # es) = sends es"

text \<open>
  A step that sends nothing: the listening socket stays the same and the trace grows
  by effects none of which is a \<^verbatim>\<open>send\<close>.
\<close>

definition quiet_step :: "state \<Rightarrow> state \<Rightarrow> bool" where
  "quiet_step st st' \<longleftrightarrow>
     server st' = server st
     \<and> (\<exists>es. trace st' = trace st @ es \<and> sends es = [])"

text \<open>
  The clients, in the order of the list, up to the first one on which \<^verbatim>\<open>send\<close>
  raises: the ones the broadcast reaches.
\<close>

definition send_ok :: "(sock \<rightharpoonup> exn) \<Rightarrow> state \<Rightarrow> sock \<Rightarrow> bool" where
  "send_ok raises st c \<longleftrightarrow> c \<notin> closed st \<and> raises c = None"

definition reached :: "(sock \<rightharpoonup> exn) \<Rightarrow> state \<Rightarrow> sock list" where
  "reached raises st = takeWhile (send_ok raises st) (clients st)"

text \<open>An effect on socket \<open>s\<close>.\<close>

fun touches :: "sock \<Rightarrow> effect \<Rightarrow> bool" where
  "touches s (Print p) = False"
| "touches s (Send c b) = (c = s)"
| "touches s (Close c) = (c = s)"
| "touches s (Register c) = (c = s)"
| "touches s (Unregister c) = (c = s)"

text \<open>
  Every \<^verbatim>\<open>close\<close> in a trace is followed at once by the \<^verbatim>\<open>unregister\<close> of the same
  socket, and no later effect is on that socket.
\<close>

definition evictions_ok :: "effect list \<Rightarrow> bool" where
  "evictions_ok es \<longleftrightarrow>
     (\<forall>xs s ys. es = xs @ Close s # ys \<longrightarrow>
        (\<exists>zs. ys = Unregister s # zs \<and> (\<forall>e \<in> set zs. \<not> touches s e)))"

text \<open>The bookkeeping of the loop together with what its trace records of it.\<close>

definition trace_inv :: "state \<Rightarrow> bool" where
  "trace_inv st \<longleftrightarrow>
     conn_inv st
     \<and> (\<forall>s. Close s \<in> set (trace st) \<or> Unregister s \<in> set (trace st) \<longrightarrow> s \<in> closed st)
     \<and> evictions_ok (trace st)"

section \<open>Properties\<close>

subsection \<open>Auxiliary facts\<close>

lemma removeAll_remove1: "removeAll s (remove1 s cs) = removeAll s cs"
  by (induction cs) auto

lemma remove_while_removeAll: "remove_while s cs = removeAll s cs"
proof (induction s cs rule: remove_while.induct)
  case (1 s cs)
  show ?case
  proof (cases "s \<in> set cs")
    case True
    with 1 show ?thesis
      by (subst remove_while.simps) (simp add: removeAll_remove1)
  next
    case False
    then show ?thesis
      by (subst remove_while.simps) simp
  qed
qed

lemma read_cases:
  "read s rs st = Unfinished
   \<or> (\<exists>e out. read s rs st = Raises e (st\<lparr>trace := trace st @ map Print out\<rparr>))
   \<or> (\<exists>data out. read s rs st = Returns (False, data) (st\<lparr>trace := trace st @ map Print out\<rparr>))
   \<or> (\<exists>data out. read s rs st =
         Returns (True, data)
           (st\<lparr>closed := insert s (closed st), trace := trace st @ map Print out @ [Close s]\<rparr>))"
proof (cases "recv_loop (s \<in> closed st) rs [] []")
  case None
  then show ?thesis by (simp add: read_def)
next
  case (Some r)
  obtain ex db out where r: "r = (ex, db, out)" by (cases r) auto
  show ?thesis
  proof (cases ex)
    case (Broke has_eof)
    show ?thesis
    proof (cases has_eof)
      case True
      with Some r Broke have "read s rs st =
         Returns (True, db)
           (st\<lparr>closed := insert s (closed st), trace := trace st @ map Print out @ [Close s]\<rparr>)"
        by (simp add: read_def read_return_def sock_close_def)
      then show ?thesis by blast
    next
      case False
      with Some r Broke have "read s rs st =
         Returns (False, db) (st\<lparr>trace := trace st @ map Print out\<rparr>)"
        by (simp add: read_def read_return_def)
      then show ?thesis by blast
    qed
  next
    case (Raised e)
    consider (blocking) "e = BlockingIOError"
      | (os) "e = OSError \<or> e = ConnectionResetError"
      | (other) "e = AttributeError \<or> e = KeyError \<or> e = ValueError"
      by (cases e) auto
    then show ?thesis
    proof cases
      case blocking
      with Some r Raised have "read s rs st =
         Returns (False, db)
           (st\<lparr>trace := trace st @ map Print (out @ [Text ''Got a BlockingIOError in read() call.''])\<rparr>)"
        by (simp add: read_def read_return_def print_def)
      then show ?thesis by blast
    next
      case os
      with Some r Raised have "read s rs st =
         Returns (True, db)
           (st\<lparr>closed := insert s (closed st),
               trace := trace st @ map Print (out @ [Text ''Got an OSError in read() call.''])
                        @ [Close s]\<rparr>)"
        by (auto simp add: read_def read_return_def print_def sock_close_def)
      then show ?thesis by blast
    next
      case other
      with Some r Raised have "read s rs st = Raises e (st\<lparr>trace := trace st @ map Print out\<rparr>)"
        by (auto simp add: read_def)
      then show ?thesis by blast
    qed
  qed
qed

lemma handle_event_accept_raises:
  "fileobj ev = server st \<Longrightarrow> accepted ev = Inl e \<Longrightarrow> handle_event ev st = Raises e st"
  by (simp add: handle_event_def)

lemma handle_event_accept:
  "fileobj ev = server st \<Longrightarrow> accepted ev = Inr a \<Longrightarrow>
   handle_event ev st =
     (if next_sock st \<in> registered st then Raises KeyError (st\<lparr>next_sock := Suc (next_sock st)\<rparr>)
      else if next_sock st \<in> closed st then Raises ValueError (st\<lparr>next_sock := Suc (next_sock st)\<rparr>)
      else Returns ()
             (st\<lparr>next_sock := Suc (next_sock st),
                 registered := insert (next_sock st) (registered st),
                 clients := clients st @ [next_sock st],
                 trace := trace st @ [Register (next_sock st),
                                      Print (GotSocket (next_sock st) a)]\<rparr>))"
  by (simp add: handle_event_def sel_register_def print_def Let_def)

text \<open>
  The outcomes of a step for the listening socket: the state is unchanged but for the
  next handle, or a new client is registered.
\<close>

lemma handle_event_server:
  assumes "fileobj ev = server st"
  obtains
    (failed) e n where "handle_event ev st = Raises e (st\<lparr>next_sock := n\<rparr>)" "next_sock st \<le> n"
  | (accepted) a where
      "next_sock st \<notin> registered st" "next_sock st \<notin> closed st"
      "handle_event ev st =
         Returns ()
           (st\<lparr>next_sock := Suc (next_sock st),
               registered := insert (next_sock st) (registered st),
               clients := clients st @ [next_sock st],
               trace := trace st @ [Register (next_sock st),
                                    Print (GotSocket (next_sock st) a)]\<rparr>)"
proof (cases "accepted ev")
  case (Inl e)
  with assms have "handle_event ev st = Raises e (st\<lparr>next_sock := next_sock st\<rparr>)"
    by (simp add: handle_event_accept_raises)
  then show ?thesis by (rule failed) simp
next
  case (Inr a)
  note eq = handle_event_accept [OF assms Inr]
  show ?thesis
  proof (cases "next_sock st \<in> registered st \<or> next_sock st \<in> closed st")
    case True
    then have "handle_event ev st = Raises KeyError (st\<lparr>next_sock := Suc (next_sock st)\<rparr>)
       \<or> handle_event ev st = Raises ValueError (st\<lparr>next_sock := Suc (next_sock st)\<rparr>)"
      by (auto simp add: eq)
    then show ?thesis by (auto intro: failed)
  next
    case False
    then show ?thesis by (intro accepted [of a]) (simp_all add: eq)
  qed
qed

lemma handle_event_client:
  assumes "fileobj ev \<noteq> server st"
  obtains
    (unfinished) "handle_event ev st = Unfinished"
  | (raises) e out where
      "handle_event ev st = Raises e (st\<lparr>trace := trace st @ map Print out\<rparr>)"
  | (unregistered) out where
      "fileobj ev \<notin> registered st"
      "handle_event ev st =
         Raises ValueError
           (st\<lparr>closed := insert (fileobj ev) (closed st),
               trace := trace st @ map Print out @ [Close (fileobj ev)]\<rparr>)"
  | (evicted) out where
      "fileobj ev \<in> registered st"
      "handle_event ev st =
         Returns ()
           (st\<lparr>closed := insert (fileobj ev) (closed st),
               registered := registered st - {fileobj ev},
               clients := removeAll (fileobj ev) (clients st),
               trace := trace st @ map Print out @ [Close (fileobj ev), Unregister (fileobj ev)]\<rparr>)"
proof -
  let ?s = "fileobj ev"
  from read_cases [of ?s "recvs ev" st]
  consider (unf) "read ?s (recvs ev) st = Unfinished"
    | (exc) e out where "read ?s (recvs ev) st = Raises e (st\<lparr>trace := trace st @ map Print out\<rparr>)"
    | (data) data out where
        "read ?s (recvs ev) st = Returns (False, data) (st\<lparr>trace := trace st @ map Print out\<rparr>)"
    | (eof) data out where
        "read ?s (recvs ev) st = Returns (True, data)
           (st\<lparr>closed := insert ?s (closed st), trace := trace st @ map Print out @ [Close ?s]\<rparr>)"
    by blast
  then show ?thesis
  proof cases
    case unf
    with assms have "handle_event ev st = Unfinished"
      by (simp add: handle_event_def Let_def)
    then show ?thesis by (rule unfinished)
  next
    case exc
    with assms have "handle_event ev st = Raises e (st\<lparr>trace := trace st @ map Print out\<rparr>)"
      by (simp add: handle_event_def Let_def)
    then show ?thesis by (rule raises)
  next
    case data
    with assms have "handle_event ev st =
        Raises AttributeError (st\<lparr>trace := trace st @ map Print out\<rparr>)"
      by (simp add: handle_event_def sock_write_def Let_def)
    then show ?thesis by (rule raises)
  next
    case eof
    show ?thesis
    proof (cases "?s \<in> registered st")
      case True
      with assms eof have "handle_event ev st =
         Returns ()
           (st\<lparr>closed := insert ?s (closed st),
               registered := registered st - {?s},
               clients := removeAll ?s (clients st),
               trace := trace st @ map Print out @ [Close ?s, Unregister ?s]\<rparr>)"
        by (simp add: handle_event_def sel_unregister_def remove_while_removeAll Let_def)
      with True show ?thesis by (rule evicted)
    next
      case False
      with assms eof have "handle_event ev st =
         Raises ValueError (st\<lparr>closed := insert ?s (closed st),
                       trace := trace st @ map Print out @ [Close ?s]\<rparr>)"
        by (simp add: handle_event_def sel_unregister_def Let_def)
      with False show ?thesis by (rule unregistered)
    qed
  qed
qed

lemma recv_loop_full_chunks:
  "\<forall>c \<in> set chunks. length c = RECV_MAX \<Longrightarrow>
     recv_loop False (map Recv chunks @ rs) db out = recv_loop False rs (db @ concat chunks) out"
  by (induction chunks arbitrary: db) (simp_all add: RECV_MAX_def)

lemma sends_append: "sends (xs @ ys) = sends xs @ sends ys"
  by (induction xs rule: sends.induct) simp_all

lemma sends_prints: "sends (map Print out) = []"
  by (induction out) simp_all

lemma sends_broadcast: "sends (map (\<lambda>c. Send c PAYLOAD) cs) = map (\<lambda>c. (c, PAYLOAD)) cs"
  by (induction cs) simp_all

lemma send_ok_trace [simp]: "send_ok raises (st\<lparr>trace := t\<rparr>) = send_ok raises st"
  by (simp add: send_ok_def fun_eq_iff)

lemma send_all_final:
  "final_state (send_all raises cs st) =
     Some (st\<lparr>trace := trace st @ map (\<lambda>c. Send c PAYLOAD) (takeWhile (send_ok raises st) cs)\<rparr>)"
proof (induction cs arbitrary: st)
  case Nil
  then show ?case by simp
next
  case (Cons c cs)
  show ?case
  proof (cases "send_ok raises st c")
    case True
    then have "sock_send raises c PAYLOAD st = Returns () (st\<lparr>trace := trace st @ [Send c PAYLOAD]\<rparr>)"
      by (simp add: send_ok_def sock_send_def)
    with True show ?thesis by (simp add: Cons.IH)
  next
    case False
    then have "\<exists>e. sock_send raises c PAYLOAD st = Raises e st"
      by (auto simp add: send_ok_def sock_send_def)
    with False show ?thesis by auto
  qed
qed


lemma send_all_not_unfinished: "send_all raises cs st \<noteq> Unfinished"
  using send_all_final [of raises cs st] by (cases "send_all raises cs st") simp_all

lemma broadcast_final:
  "final_state (broadcast raises st) =
     Some (st\<lparr>trace := trace st @ map (\<lambda>c. Send c PAYLOAD) (reached raises st)\<rparr>)"
  by (simp add: broadcast_def reached_def send_all_final)

lemma quiet_step_refl: "quiet_step st st"
  by (simp add: quiet_step_def)

lemma quiet_step_trans:
  assumes "quiet_step a b" and "quiet_step b c"
  shows "quiet_step a c"
proof -
  from assms(1) obtain es where 1: "server b = server a" "trace b = trace a @ es" "sends es = []"
    by (auto simp: quiet_step_def)
  from assms(2) obtain fs where 2: "server c = server b" "trace c = trace b @ fs" "sends fs = []"
    by (auto simp: quiet_step_def)
  from 1 2 have "trace c = trace a @ (es @ fs)" "sends (es @ fs) = []"
    by (simp_all add: sends_append)
  with 1 2 show ?thesis unfolding quiet_step_def by metis
qed

lemma quiet_stepI:
  "server st' = server st \<Longrightarrow> trace st' = trace st @ es \<Longrightarrow> sends es = [] \<Longrightarrow> quiet_step st st'"
  unfolding quiet_step_def by blast

lemma handle_event_quiet:
  assumes "final_state (handle_event ev st) = Some st'"
  shows "quiet_step st st'"
proof (cases "fileobj ev = server st")
  case True
  then show ?thesis
  proof (cases rule: handle_event_server)
    case (failed e n)
    with assms show ?thesis by (auto simp add: quiet_step_def)
  next
    case (accepted a)
    with assms show ?thesis by (auto intro!: quiet_stepI)
  qed
next
  case False
  then show ?thesis
  proof (cases rule: handle_event_client)
    case unfinished
    with assms show ?thesis by simp
  next
    case (raises e out)
    with assms show ?thesis by (auto intro!: quiet_stepI simp: sends_prints)
  next
    case (unregistered out)
    with assms show ?thesis by (auto intro!: quiet_stepI simp: sends_prints sends_append)
  next
    case (evicted out)
    with assms show ?thesis by (auto intro!: quiet_stepI simp: sends_prints sends_append)
  qed
qed

lemma process_events_quiet:
  "final_state (process_events evs st) = Some st' \<Longrightarrow> quiet_step st st'"
proof (induction evs arbitrary: st)
  case Nil
  then show ?case by (simp add: quiet_step_refl)
next
  case (Cons ev evs)
  show ?case
  proof (cases "handle_event ev st")
    case (Returns u st1)
    with Cons.prems have "final_state (process_events evs st1) = Some st'" by simp
    then have "quiet_step st1 st'" by (rule Cons.IH)
    moreover from Returns have "final_state (handle_event ev st) = Some st1" by simp
    then have "quiet_step st st1" by (rule handle_event_quiet)
    ultimately show ?thesis by (blast intro: quiet_step_trans)
  next
    case (Raises e st1)
    with Cons.prems have "final_state (handle_event ev st) = Some st'" by simp
    then show ?thesis by (rule handle_event_quiet)
  next
    case Unfinished
    with Cons.prems show ?thesis by simp
  qed
qed

lemma handle_event_inv:
  assumes "conn_inv st" and "handle_event ev st = Returns u st'"
  shows "conn_inv st'"
proof (cases "fileobj ev = server st")
  case True
  then show ?thesis
  proof (cases rule: handle_event_server)
    case (failed e n)
    with assms show ?thesis by simp
  next
    case (accepted a)
    with assms show ?thesis by (auto simp add: conn_inv_def less_Suc_eq)
  qed
next
  case False
  then show ?thesis
  proof (cases rule: handle_event_client)
    case (evicted out)
    with assms False show ?thesis by (auto simp add: conn_inv_def)
  qed (use assms in simp_all)
qed

lemma process_events_inv:
  "conn_inv st \<Longrightarrow> process_events evs st = Returns u st' \<Longrightarrow> conn_inv st'"
proof (induction evs arbitrary: st)
  case Nil
  then show ?case by simp
next
  case (Cons ev evs)
  then show ?case
    by (cases "handle_event ev st") (auto dest: handle_event_inv)
qed

lemma broadcast_inv:
  assumes "conn_inv st" and "final_state (broadcast raises st) = Some st'"
  shows "conn_inv st'"
  using assms by (auto simp add: broadcast_final conn_inv_def)

lemma init_inv: "conn_inv init"
  by (simp add: conn_inv_def init_def)

lemma broadcast_points_inv:
  "conn_inv st \<Longrightarrow> st' \<in> set (broadcast_points polls st) \<Longrightarrow> conn_inv st'"
proof (induction polls arbitrary: st)
  case Nil
  then show ?case by simp
next
  case (Cons p polls)
  show ?case
  proof (cases "process_events (sel_select (ready p) st) st")
    case (Returns u st1)
    with Cons.prems have inv1: "conn_inv st1" by (blast intro: process_events_inv)
    show ?thesis
    proof (cases "broadcast (send_raises p) st1")
      case (Returns v st2)
      then have "final_state (broadcast (send_raises p) st1) = Some st2" by simp
      with inv1 have "conn_inv st2" by (rule broadcast_inv)
      moreover from Returns \<open>process_events (sel_select (ready p) st) st = Returns u st1\<close> Cons.prems
      have "st' = st1 \<or> st' \<in> set (broadcast_points polls st2)" by simp
      ultimately show ?thesis using inv1 by (blast intro: Cons.IH)
    next
      case (Raises e st2)
      with \<open>process_events (sel_select (ready p) st) st = Returns u st1\<close> Cons.prems inv1
      show ?thesis by simp
    next
      case Unfinished
      with \<open>process_events (sel_select (ready p) st) st = Returns u st1\<close> Cons.prems inv1
      show ?thesis by simp
    qed
  next
    case (Raises e st1)
    with Cons.prems show ?thesis by simp
  next
    case Unfinished
    with Cons.prems show ?thesis by simp
  qed
qed

text \<open>Evictions in the trace: appending effects keeps them well formed.\<close>

lemma evictions_ok_no_close: "\<forall>s. Close s \<notin> set es \<Longrightarrow> evictions_ok es"
  unfolding evictions_ok_def by (metis in_set_conv_decomp)

lemma evictions_ok_append_quiet:
  assumes ok: "evictions_ok es"
    and untouched: "\<forall>s. Close s \<in> set es \<longrightarrow> (\<forall>e \<in> set new. \<not> touches s e)"
    and no_close: "\<forall>s. Close s \<notin> set new"
  shows "evictions_ok (es @ new)"
  unfolding evictions_ok_def
proof (intro allI impI)
  fix xs s ys
  assume eq: "es @ new = xs @ Close s # ys"
  then obtain us where
    "(es = xs @ us \<and> us @ new = Close s # ys) \<or> (es @ us = xs \<and> new = us @ Close s # ys)"
    by (auto simp add: append_eq_append_conv2)
  then show "\<exists>zs. ys = Unregister s # zs \<and> (\<forall>e \<in> set zs. \<not> touches s e)"
  proof
    assume a: "es = xs @ us \<and> us @ new = Close s # ys"
    show ?thesis
    proof (cases us)
      case Nil
      with a have "Close s \<in> set new" by simp
      with no_close show ?thesis by simp
    next
      case (Cons u us')
      with a have es: "es = xs @ Close s # us'" and ys: "ys = us' @ new" by simp_all
      from ok es obtain zs where zs: "us' = Unregister s # zs" "\<forall>e \<in> set zs. \<not> touches s e"
        unfolding evictions_ok_def by blast
      from es have "Close s \<in> set es" by simp
      with untouched have "\<forall>e \<in> set new. \<not> touches s e" by blast
      with zs ys show ?thesis by auto
    qed
  next
    assume "es @ us = xs \<and> new = us @ Close s # ys"
    then have "Close s \<in> set new" by auto
    with no_close show ?thesis by simp
  qed
qed

lemma evictions_ok_append_evict:
  assumes ok: "evictions_ok es" and fresh: "Close s \<notin> set es"
  shows "evictions_ok (es @ [Close s, Unregister s])"
  unfolding evictions_ok_def
proof (intro allI impI)
  fix xs t ys
  assume eq: "es @ [Close s, Unregister s] = xs @ Close t # ys"
  then obtain us where
    "(es = xs @ us \<and> us @ [Close s, Unregister s] = Close t # ys)
     \<or> (es @ us = xs \<and> [Close s, Unregister s] = us @ Close t # ys)"
    by (auto simp add: append_eq_append_conv2)
  then show "\<exists>zs. ys = Unregister t # zs \<and> (\<forall>e \<in> set zs. \<not> touches t e)"
  proof
    assume a: "es = xs @ us \<and> us @ [Close s, Unregister s] = Close t # ys"
    show ?thesis
    proof (cases us)
      case Nil
      with a have "ys = Unregister t # []" by auto
      then show ?thesis by simp
    next
      case (Cons u us')
      with a have es: "es = xs @ Close t # us'" and ys: "ys = us' @ [Close s, Unregister s]"
        by simp_all
      from ok es obtain zs where zs: "us' = Unregister t # zs" "\<forall>e \<in> set zs. \<not> touches t e"
        unfolding evictions_ok_def by blast
      from es fresh have "t \<noteq> s" by auto
      with zs ys show ?thesis by auto
    qed
  next
    assume a: "es @ us = xs \<and> [Close s, Unregister s] = us @ Close t # ys"
    then have "us = [] \<and> t = s \<and> ys = [Unregister s]"
      by (cases us) (auto simp add: Cons_eq_append_conv)
    then show ?thesis by simp
  qed
qed

lemma trace_inv_init: "trace_inv init"
proof -
  have "evictions_ok (trace init)"
    by (rule evictions_ok_no_close) (simp add: init_def)
  then show ?thesis
    using init_inv by (simp add: trace_inv_def) (simp add: init_def)
qed

lemma trace_inv_quiet:
  assumes inv: "trace_inv st" and c: "conn_inv st'" and cl: "closed st' = closed st"
    and tr: "trace st' = trace st @ new"
    and new: "\<forall>e \<in> set new. (\<forall>s \<in> closed st. \<not> touches s e)
                \<and> (\<forall>s. e \<noteq> Close s) \<and> (\<forall>s. e \<noteq> Unregister s)"
  shows "trace_inv st'"
proof -
  from inv have closed: "\<forall>s. Close s \<in> set (trace st) \<or> Unregister s \<in> set (trace st) \<longrightarrow> s \<in> closed st"
    and ok: "evictions_ok (trace st)"
    by (simp_all add: trace_inv_def)
  from new have no_close: "\<forall>s. Close s \<notin> set new" and no_unreg: "\<forall>s. Unregister s \<notin> set new"
    by auto
  from closed new have "\<forall>s. Close s \<in> set (trace st) \<longrightarrow> (\<forall>e \<in> set new. \<not> touches s e)"
    by blast
  with ok have "evictions_ok (trace st @ new)"
    using no_close by (rule evictions_ok_append_quiet)
  moreover from closed no_close no_unreg cl tr
  have "\<forall>s. Close s \<in> set (trace st') \<or> Unregister s \<in> set (trace st') \<longrightarrow> s \<in> closed st'"
    by auto
  ultimately show ?thesis using c tr by (simp add: trace_inv_def)
qed

lemma trace_inv_evict:
  assumes inv: "trace_inv st" and reg: "s \<in> registered st" and c: "conn_inv st'"
    and cl: "closed st' = insert s (closed st)"
    and tr: "trace st' = trace st @ map Print out @ [Close s, Unregister s]"
  shows "trace_inv st'"
proof -
  from inv have closed: "\<forall>s. Close s \<in> set (trace st) \<or> Unregister s \<in> set (trace st) \<longrightarrow> s \<in> closed st"
    and ok: "evictions_ok (trace st)" and conn: "conn_inv st"
    by (simp_all add: trace_inv_def)
  from conn reg have "s \<notin> closed st" by (auto simp add: conn_inv_def)
  with closed have fresh: "Close s \<notin> set (trace st)" by blast
  have "evictions_ok (trace st @ map Print out)"
    using ok by (rule evictions_ok_append_quiet) auto
  moreover from fresh have "Close s \<notin> set (trace st @ map Print out)" by auto
  ultimately have "evictions_ok ((trace st @ map Print out) @ [Close s, Unregister s])"
    by (rule evictions_ok_append_evict)
  moreover from closed cl tr
  have "\<forall>s. Close s \<in> set (trace st') \<or> Unregister s \<in> set (trace st') \<longrightarrow> s \<in> closed st'"
    by auto
  ultimately show ?thesis using c tr by (simp add: trace_inv_def)
qed

lemma conn_inv_trace [simp]: "conn_inv (st\<lparr>trace := t\<rparr>) = conn_inv st"
  by (simp add: conn_inv_def)

lemma conn_inv_next_sock:
  assumes "conn_inv st" and "next_sock st \<le> n"
  shows "conn_inv (st\<lparr>next_sock := n\<rparr>)"
proof -
  from assms have "\<forall>x \<in> registered st \<union> closed st. x < n"
    unfolding conn_inv_def by (meson less_le_trans)
  with assms(1) show ?thesis by (simp add: conn_inv_def)
qed

lemma handle_event_trace_inv:
  assumes inv: "trace_inv st" and reg: "fileobj ev \<in> registered st"
    and fin: "final_state (handle_event ev st) = Some st'"
  shows "trace_inv st'"
proof -
  from inv have conn: "conn_inv st" by (simp add: trace_inv_def)
  show ?thesis
  proof (cases "fileobj ev = server st")
    case True
    then show ?thesis
    proof (cases rule: handle_event_server)
      case (failed e n)
      with fin have st': "st' = st\<lparr>next_sock := n\<rparr>" by simp
      from conn failed(2) have c: "conn_inv (st\<lparr>next_sock := n\<rparr>)" by (rule conn_inv_next_sock)
      have cl: "closed (st\<lparr>next_sock := n\<rparr>) = closed st" by simp
      have tr: "trace (st\<lparr>next_sock := n\<rparr>) = trace st @ []" by simp
      have new: "\<forall>e \<in> set []. (\<forall>s \<in> closed st. \<not> touches s e)
                \<and> (\<forall>s. e \<noteq> Close s) \<and> (\<forall>s. e \<noteq> Unregister s)" by simp
      from inv c cl tr new show ?thesis unfolding st' by (rule trace_inv_quiet)
    next
      case (accepted a)
      let ?new = "[Register (next_sock st), Print (GotSocket (next_sock st) a)]"
      let ?st' = "st\<lparr>next_sock := Suc (next_sock st),
               registered := insert (next_sock st) (registered st),
               clients := clients st @ [next_sock st],
               trace := trace st @ ?new\<rparr>"
      from accepted(3) fin have st': "st' = ?st'" by simp
      from conn accepted(3) have c: "conn_inv ?st'" by (rule handle_event_inv)
      have cl: "closed ?st' = closed st" by simp
      have tr: "trace ?st' = trace st @ ?new" by simp
      from accepted(2) have new: "\<forall>e \<in> set ?new. (\<forall>s \<in> closed st. \<not> touches s e)
                \<and> (\<forall>s. e \<noteq> Close s) \<and> (\<forall>s. e \<noteq> Unregister s)" by auto
      from inv c cl tr new show ?thesis unfolding st' by (rule trace_inv_quiet)
    qed
  next
    case False
    then show ?thesis
    proof (cases rule: handle_event_client)
      case unfinished
      with fin show ?thesis by simp
    next
      case (raises e out)
      let ?st' = "st\<lparr>trace := trace st @ map Print out\<rparr>"
      from raises fin have st': "st' = ?st'" by simp
      from conn have c: "conn_inv ?st'" by simp
      have cl: "closed ?st' = closed st" by simp
      have tr: "trace ?st' = trace st @ map Print out" by simp
      have new: "\<forall>e \<in> set (map Print out). (\<forall>s \<in> closed st. \<not> touches s e)
                \<and> (\<forall>s. e \<noteq> Close s) \<and> (\<forall>s. e \<noteq> Unregister s)" by auto
      from inv c cl tr new show ?thesis unfolding st' by (rule trace_inv_quiet)
    next
      case (unregistered out)
      with reg show ?thesis by simp
    next
      case (evicted out)
      let ?s = "fileobj ev"
      let ?st' = "st\<lparr>closed := insert ?s (closed st),
               registered := registered st - {?s},
               clients := removeAll ?s (clients st),
               trace := trace st @ map Print out @ [Close ?s, Unregister ?s]\<rparr>"
      from evicted(2) fin have st': "st' = ?st'" by simp
      from conn evicted(2) have c: "conn_inv ?st'" by (rule handle_event_inv)
      have cl: "closed ?st' = insert ?s (closed st)" by simp
      have tr: "trace ?st' = trace st @ map Print out @ [Close ?s, Unregister ?s]" by simp
      from inv reg c cl tr show ?thesis unfolding st' by (rule trace_inv_evict)
    qed
  qed
qed

lemma handle_event_keeps_registered:
  assumes "handle_event ev st = Returns u st'" and "x \<in> registered st" and "x \<noteq> fileobj ev"
  shows "x \<in> registered st'"
proof (cases "fileobj ev = server st")
  case True
  then show ?thesis
    by (cases rule: handle_event_server) (use assms in auto)
next
  case False
  then show ?thesis
    by (cases rule: handle_event_client) (use assms in auto)
qed

lemma process_events_trace_inv:
  "trace_inv st \<Longrightarrow> \<forall>ev \<in> set evs. fileobj ev \<in> registered st \<Longrightarrow>
   distinct (map fileobj evs) \<Longrightarrow> final_state (process_events evs st) = Some st' \<Longrightarrow>
   trace_inv st'"
proof (induction evs arbitrary: st)
  case Nil
  then show ?case by simp
next
  case (Cons ev evs)
  from Cons.prems(2) have reg: "fileobj ev \<in> registered st" by simp
  show ?case
  proof (cases "handle_event ev st")
    case (Returns u st1)
    then have "final_state (handle_event ev st) = Some st1" by simp
    with Cons.prems(1) reg have inv1: "trace_inv st1" by (rule handle_event_trace_inv)
    have "\<forall>ev' \<in> set evs. fileobj ev' \<in> registered st1"
    proof
      fix ev'
      assume "ev' \<in> set evs"
      with Cons.prems(2,3) have "fileobj ev' \<in> registered st" "fileobj ev' \<noteq> fileobj ev"
        by (auto simp add: image_iff)
      with Returns show "fileobj ev' \<in> registered st1" by (rule handle_event_keeps_registered)
    qed
    moreover from Cons.prems(3) have "distinct (map fileobj evs)" by simp
    moreover from Returns Cons.prems(4) have "final_state (process_events evs st1) = Some st'"
      by simp
    ultimately show ?thesis using inv1 by (blast intro: Cons.IH)
  next
    case (Raises e st1)
    with Cons.prems(4) have "final_state (handle_event ev st) = Some st'" by simp
    with Cons.prems(1) reg show ?thesis by (rule handle_event_trace_inv)
  next
    case Unfinished
    with Cons.prems(4) show ?thesis by simp
  qed
qed

lemma select_trace_inv:
  assumes "trace_inv st" and "distinct (map fileobj rdy)"
    and "final_state (process_events (sel_select rdy st) st) = Some st'"
  shows "trace_inv st'"
proof -
  have "\<forall>ev \<in> set (sel_select rdy st). fileobj ev \<in> registered st"
    by (simp add: sel_select_def)
  moreover from assms(2) have "distinct (map fileobj (sel_select rdy st))"
    by (simp add: sel_select_def distinct_map_filter)
  ultimately show ?thesis using assms(1,3) by (blast intro: process_events_trace_inv)
qed

lemma broadcast_trace_inv:
  assumes inv: "trace_inv st" and fin: "final_state (broadcast raises st) = Some st'"
  shows "trace_inv st'"
proof -
  from fin have st': "st' = st\<lparr>trace := trace st @ map (\<lambda>c. Send c PAYLOAD) (reached raises st)\<rparr>"
    by (simp add: broadcast_final)
  from inv have conn: "conn_inv st" by (simp add: trace_inv_def)
  then have "conn_inv st'" by (simp add: st')
  moreover have "set (reached raises st) \<subseteq> set (clients st)"
    by (auto simp add: reached_def dest: set_takeWhileD)
  with conn have "\<forall>c \<in> set (reached raises st). c \<notin> closed st"
    by (auto simp add: conn_inv_def)
  then have "\<forall>e \<in> set (map (\<lambda>c. Send c PAYLOAD) (reached raises st)).
      (\<forall>s \<in> closed st. \<not> touches s e) \<and> (\<forall>s. e \<noteq> Close s) \<and> (\<forall>s. e \<noteq> Unregister s)"
    by auto
  ultimately show ?thesis
    using inv by (intro trace_inv_quiet [OF inv, where new = "map (\<lambda>c. Send c PAYLOAD) (reached raises st)"])
      (simp_all add: st')
qed

lemma cycle_trace_inv:
  assumes "trace_inv st" and "distinct (map fileobj (ready p))"
    and "final_state (cycle p st) = Some st'"
  shows "trace_inv st'"
proof (cases "process_events (sel_select (ready p) st) st")
  case (Returns u st1)
  then have "final_state (process_events (sel_select (ready p) st) st) = Some st1" by simp
  with assms(1,2) have "trace_inv st1" by (rule select_trace_inv)
  moreover from Returns assms(3) have "final_state (broadcast (send_raises p) st1) = Some st'"
    by (simp add: cycle_def)
  ultimately show ?thesis by (rule broadcast_trace_inv)
next
  case (Raises e st1)
  with assms(3) have "final_state (process_events (sel_select (ready p) st) st) = Some st'"
    by (simp add: cycle_def)
  with assms(1,2) show ?thesis by (rule select_trace_inv)
next
  case Unfinished
  with assms(3) show ?thesis by (simp add: cycle_def)
qed

lemma main_loop_trace_inv:
  "trace_inv st \<Longrightarrow> \<forall>p \<in> set polls. distinct (map fileobj (ready p)) \<Longrightarrow>
   final_state (main_loop polls st) = Some st' \<Longrightarrow> trace_inv st'"
proof (induction polls arbitrary: st)
  case Nil
  then show ?case by simp
next
  case (Cons p polls)
  from Cons.prems(2) have d: "distinct (map fileobj (ready p))" by simp
  show ?case
  proof (cases "cycle p st")
    case (Returns u st1)
    then have "final_state (cycle p st) = Some st1" by simp
    with Cons.prems(1) d have "trace_inv st1" by (rule cycle_trace_inv)
    moreover from Cons.prems(2) have "\<forall>p \<in> set polls. distinct (map fileobj (ready p))" by simp
    moreover from Returns Cons.prems(3) have "final_state (main_loop polls st1) = Some st'" by simp
    ultimately show ?thesis by (rule Cons.IH)
  next
    case (Raises e st1)
    with Cons.prems(3) have "final_state (cycle p st) = Some st'" by simp
    with Cons.prems(1) d show ?thesis by (rule cycle_trace_inv)
  next
    case Unfinished
    with Cons.prems(3) show ?thesis by simp
  qed
qed

lemma broadcast_points_trace_inv:
  "trace_inv st \<Longrightarrow> \<forall>p \<in> set polls. distinct (map fileobj (ready p)) \<Longrightarrow>
   st' \<in> set (broadcast_points polls st) \<Longrightarrow> trace_inv st'"
proof (induction polls arbitrary: st)
  case Nil
  then show ?case by simp
next
  case (Cons p polls)
  from Cons.prems(2) have d: "distinct (map fileobj (ready p))"
    and ds: "\<forall>p \<in> set polls. distinct (map fileobj (ready p))" by simp_all
  show ?case
  proof (cases "process_events (sel_select (ready p) st) st")
    case (Returns u st1)
    then have "final_state (process_events (sel_select (ready p) st) st) = Some st1" by simp
    with Cons.prems(1) d have inv1: "trace_inv st1" by (rule select_trace_inv)
    show ?thesis
    proof (cases "broadcast (send_raises p) st1")
      case (Returns v st2)
      then have "final_state (broadcast (send_raises p) st1) = Some st2" by simp
      with inv1 have "trace_inv st2" by (rule broadcast_trace_inv)
      moreover from Returns \<open>process_events (sel_select (ready p) st) st = Returns u st1\<close> Cons.prems(3)
      have "st' = st1 \<or> st' \<in> set (broadcast_points polls st2)" by simp
      ultimately show ?thesis using inv1 ds by (blast intro: Cons.IH)
    next
      case (Raises e st2)
      with \<open>process_events (sel_select (ready p) st) st = Returns u st1\<close> Cons.prems(3) inv1
      show ?thesis by simp
    next
      case Unfinished
      with \<open>process_events (sel_select (ready p) st) st = Returns u st1\<close> Cons.prems(3) inv1
      show ?thesis by simp
    qed
  next
    case (Raises e st1)
    with Cons.prems(3) show ?thesis by simp
  next
    case Unfinished
    with Cons.prems(3) show ?thesis by simp
  qed
qed

lemmas run_defs = handle_event_def read_def read_return_def print_def sock_close_def
  sel_register_def sel_unregister_def sock_write_def sock_send_def cycle_def broadcast_def
  sel_select_def init_def Let_def RECV_MAX_def remove_while_removeAll

subsection \<open>The read operation\<close>

text \<open>
  Claim C2. A call of \<^verbatim>\<open>read\<close> on an open socket, after any number of \<^verbatim>\<open>recv\<close>
  calls that each returned a full chunk of \<open>RECV_MAX\<close> bytes: a \<^verbatim>\<open>recv\<close> of zero bytes
  stops the loop with end-of-stream true; a \<^verbatim>\<open>recv\<close> of at least one and fewer than
  \<open>RECV_MAX\<close> bytes stops it with end-of-stream false; a \<^verbatim>\<open>recv\<close> that would block
  stops it with end-of-stream false; an \<^verbatim>\<open>OSError\<close> stops it with end-of-stream true.
  In every case the buffer returned is the concatenation, in order, of the bytes
  the \<^verbatim>\<open>recv\<close> calls returned.
\<close>

theorem read_stops_and_concatenates:
  assumes "s \<notin> closed st" and "\<forall>c \<in> set chunks. length c = RECV_MAX"
  shows "read s (map Recv chunks @ Recv [] # rest) st =
           Returns (True, concat chunks) (sock_close s (print (Text ''EOF condition reached'') st))
       \<and> (0 < length d \<and> length d < RECV_MAX \<longrightarrow>
            read s (map Recv chunks @ Recv d # rest) st = Returns (False, concat chunks @ d) st)
       \<and> read s (map Recv chunks @ RecvRaises BlockingIOError # rest) st =
           Returns (False, concat chunks)
             (print (Text ''Got a BlockingIOError in read() call.'') st)
       \<and> (e = OSError \<or> e = ConnectionResetError \<longrightarrow>
            read s (map Recv chunks @ RecvRaises e # rest) st =
              Returns (True, concat chunks)
                (sock_close s (print (Text ''Got an OSError in read() call.'') st)))"
  using assms
  by (auto simp add: read_def recv_loop_full_chunks read_return_def print_def Let_def)

theorem read_stops_and_concatenates_witness:
  "read 1 (map Recv [replicate 4000 CHR ''a''] @ Recv [] # []) init =
           Returns (True, replicate 4000 CHR ''a'')
             (sock_close 1 (print (Text ''EOF condition reached'') init))
   \<and> read 1 (map Recv [replicate 4000 CHR ''a''] @ Recv ''xyz'' # []) init =
           Returns (False, replicate 4000 CHR ''a'' @ ''xyz'') init
   \<and> read 1 (map Recv [replicate 4000 CHR ''a''] @ RecvRaises BlockingIOError # []) init =
           Returns (False, replicate 4000 CHR ''a'')
             (print (Text ''Got a BlockingIOError in read() call.'') init)
   \<and> read 1 (map Recv [replicate 4000 CHR ''a''] @ RecvRaises OSError # []) init =
           Returns (True, replicate 4000 CHR ''a'')
             (sock_close 1 (print (Text ''Got an OSError in read() call.'') init))"
  using read_stops_and_concatenates [of 1 init "[replicate 4000 CHR ''a'']" "[]" "''xyz''" OSError]
  by (simp add: init_def RECV_MAX_def)

text \<open>
  Claim C8, evaluated on the code. When \<^verbatim>\<open>recv\<close> raises \<^verbatim>\<open>ConnectionResetError\<close>,
  \<^verbatim>\<open>read\<close> returns end-of-stream true and closes the socket, but the line it prints
  is the one of the \<^verbatim>\<open>except OSError\<close> clause, which stands before the
  \<^verbatim>\<open>except ConnectionResetError\<close> clause and catches the subclass: the call is
  indistinguishable from one that met any other \<^verbatim>\<open>OSError\<close>.
\<close>

theorem reset_prints_oserror:
  "read s (RecvRaises ConnectionResetError # rest) st =
     Returns (True, []) (sock_close s (print (Text ''Got an OSError in read() call.'') st))
   \<and> read s (RecvRaises ConnectionResetError # rest) st = read s (RecvRaises OSError # rest) st"
  by (simp add: read_def read_return_def Let_def)

subsection \<open>The echo\<close>

text \<open>
  Claim C1, evaluated on the code. A client connects in the first poll and sends the
  two bytes \<^verbatim>\<open>hi\<close>; in the second poll \<^verbatim>\<open>recv\<close> returns them, \<^verbatim>\<open>read\<close> returns
  end-of-stream false, and \<^verbatim>\<open>s.write(data)\<close> raises \<^verbatim>\<open>AttributeError\<close>, which leaves
  \<^verbatim>\<open>main\<close>. The only bytes ever sent to the connection are the broadcast of the first
  iteration.
\<close>

theorem echo_raises_attribute_error:
  "main_loop [Poll [Event 0 (Inr (''127.0.0.1'', 50000)) []] Map.empty,
              Poll [Event 1 (Inl BlockingIOError) [Recv ''hi'']] Map.empty] init
   = Raises AttributeError
       \<lparr>server = 0, registered = {1, 0}, clients = [1], closed = {}, next_sock = 2,
        trace = [Register 0, Print (Text ''Listening on localhost:7072.''), Register 1, Print (GotSocket 1 (''127.0.0.1'', 50000)), Send 1 PAYLOAD]\<rparr>"
  by (simp add: run_defs)

text \<open>
  Claim C10, evaluated on the code. The first \<^verbatim>\<open>recv\<close> of a client event would block:
  \<^verbatim>\<open>read\<close> returns end-of-stream false with the empty buffer, the \<^verbatim>\<open>write\<close> statement
  is reached, and it raises \<^verbatim>\<open>AttributeError\<close>; no write call with the empty byte
  string takes place.
\<close>

theorem empty_echo_raises_attribute_error:
  "handle_event (Event 1 (Inl BlockingIOError) [RecvRaises BlockingIOError])
     \<lparr>server = 0, registered = {1, 0}, clients = [1], closed = {}, next_sock = 2, trace = []\<rparr>
   = Raises AttributeError
       \<lparr>server = 0, registered = {1, 0}, clients = [1], closed = {}, next_sock = 2,
        trace = [Print (Text ''Got a BlockingIOError in read() call.'')]\<rparr>"
  by (simp add: run_defs)

text \<open>
  Claim C9, evaluated on the code. Two clients are connected, 1 and 2, and client 1
  sends the two bytes \<^verbatim>\<open>hi\<close>. The write statement of line 72 has socket 1, the one
  that was read from, as its receiver, and raises \<^verbatim>\<open>AttributeError\<close>: the trace holds
  the broadcasts of the first two iterations and no echo, neither to client 1 nor to
  client 2.
\<close>

theorem echo_to_sender_raises:
  "main_loop [Poll [Event 0 (Inr (''127.0.0.1'', 50000)) []] Map.empty,
              Poll [Event 0 (Inr (''127.0.0.1'', 50001)) []] Map.empty,
              Poll [Event 1 (Inl BlockingIOError) [Recv ''hi'']] Map.empty] init
   = Raises AttributeError
       \<lparr>server = 0, registered = {2, 1, 0}, clients = [1, 2], closed = {}, next_sock = 3,
        trace = [Register 0, Print (Text ''Listening on localhost:7072.''), Register 1, Print (GotSocket 1 (''127.0.0.1'', 50000)), Send 1 PAYLOAD,
                 Register 2, Print (GotSocket 2 (''127.0.0.1'', 50001)), Send 1 PAYLOAD, Send 2 PAYLOAD]\<rparr>"
  by (simp add: run_defs numeral_2_eq_2)

subsection \<open>The broadcast\<close>




text \<open>
  Claim C7. In an iteration of the main loop, the trace grows first by the effects of
  the event handling, none of which is a \<^verbatim>\<open>send\<close>, and then, if the event handling
  raised nothing, by the sends of the broadcast (to the clients it reaches) and nothing
  else. No broadcast send stands between the effects of two events.
\<close>

theorem broadcast_follows_events:
  assumes "final_state (cycle p st) = Some st'"
  shows "\<exists>st1 es. final_state (process_events (sel_select (ready p) st) st) = Some st1
           \<and> trace st1 = trace st @ es \<and> sends es = []
           \<and> trace st' = trace st1 @
               (case process_events (sel_select (ready p) st) st of
                  Returns u st2 \<Rightarrow> map (\<lambda>c. Send c PAYLOAD) (reached (send_raises p) st1)
                | Raises e st2 \<Rightarrow> []
                | Unfinished \<Rightarrow> [])"
proof (cases "process_events (sel_select (ready p) st) st")
  case (Returns u st1)
  then have "final_state (process_events (sel_select (ready p) st) st) = Some st1" by simp
  then have "quiet_step st st1" by (rule process_events_quiet)
  then obtain es where "trace st1 = trace st @ es" "sends es = []"
    by (auto simp: quiet_step_def)
  moreover from Returns assms
  have "st' = st1\<lparr>trace := trace st1 @ map (\<lambda>c. Send c PAYLOAD) (reached (send_raises p) st1)\<rparr>"
    by (simp add: cycle_def broadcast_final)
  ultimately show ?thesis using Returns by auto
next
  case (Raises e st1)
  with assms have st': "st' = st1" by (simp add: cycle_def)
  from Raises have "final_state (process_events (sel_select (ready p) st) st) = Some st1" by simp
  then have "quiet_step st st1" by (rule process_events_quiet)
  then obtain es where "trace st1 = trace st @ es" "sends es = []"
    by (auto simp: quiet_step_def)
  with Raises st' show ?thesis by auto
next
  case Unfinished
  with assms show ?thesis by (simp add: cycle_def)
qed

theorem broadcast_follows_events_witness:
  "final_state (cycle (Poll [Event 0 (Inr (''127.0.0.1'', 50000)) []] Map.empty) init) =
     Some \<lparr>server = 0, registered = {1, 0}, clients = [1], closed = {}, next_sock = 2,
        trace = [Register 0, Print (Text ''Listening on localhost:7072.''), Register 1, Print (GotSocket 1 (''127.0.0.1'', 50000)), Send 1 PAYLOAD]\<rparr>
   \<and> (\<exists>st1 es. final_state (process_events (sel_select (ready (Poll [Event 0 (Inr (''127.0.0.1'', 50000)) []] Map.empty)) init) init) = Some st1
           \<and> trace st1 = trace init @ es \<and> sends es = []
           \<and> trace \<lparr>server = 0, registered = {1, 0}, clients = [1], closed = {}, next_sock = 2,
                trace = [Register 0, Print (Text ''Listening on localhost:7072.''), Register 1, Print (GotSocket 1 (''127.0.0.1'', 50000)), Send 1 PAYLOAD]\<rparr>
             = trace st1 @
               (case process_events (sel_select (ready (Poll [Event 0 (Inr (''127.0.0.1'', 50000)) []] Map.empty)) init) init of
                  Returns u st2 \<Rightarrow>
                    map (\<lambda>c. Send c PAYLOAD) (reached (send_raises (Poll [Event 0 (Inr (''127.0.0.1'', 50000)) []] Map.empty)) st1)
                | Raises e st2 \<Rightarrow> []
                | Unfinished \<Rightarrow> []))"
proof -
  have h: "final_state (cycle (Poll [Event 0 (Inr (''127.0.0.1'', 50000)) []] Map.empty) init) =
     Some \<lparr>server = 0, registered = {1, 0}, clients = [1], closed = {}, next_sock = 2,
        trace = [Register 0, Print (Text ''Listening on localhost:7072.''), Register 1, Print (GotSocket 1 (''127.0.0.1'', 50000)), Send 1 PAYLOAD]\<rparr>"
    by (simp add: run_defs)
  show ?thesis using h broadcast_follows_events [OF h] by (rule conjI)
qed

subsection \<open>Eviction\<close>

text \<open>
  Claim C6. When \<^verbatim>\<open>read\<close> returns end-of-stream true it has closed the socket, the
  close being the last thing it did. For a registered client socket the event loop
  then returns from the step with the socket unregistered and every occurrence of it
  removed from the client list.
\<close>

theorem eof_is_closed_then_evicted:
  assumes "read s rs st = Returns (True, data) st1"
  shows "s \<in> closed st1 \<and> last (trace st1) = Close s
       \<and> (s \<noteq> server st \<and> s \<in> registered st \<longrightarrow>
            handle_event (Event s a rs) st =
              Returns ()
                (st1\<lparr>registered := registered st - {s},
                     clients := removeAll s (clients st),
                     trace := trace st1 @ [Unregister s]\<rparr>))"
proof -
  from read_cases [of s rs st] assms obtain out where
    st1: "st1 = st\<lparr>closed := insert s (closed st), trace := trace st @ map Print out @ [Close s]\<rparr>"
    by auto
  then have "s \<in> closed st1 \<and> last (trace st1) = Close s" by simp
  moreover have "handle_event (Event s a rs) st =
              Returns ()
                (st1\<lparr>registered := registered st - {s},
                     clients := removeAll s (clients st),
                     trace := trace st1 @ [Unregister s]\<rparr>)"
    if "s \<noteq> server st" "s \<in> registered st"
    using that assms st1
    by (simp add: handle_event_def sel_unregister_def remove_while_removeAll Let_def)
  ultimately show ?thesis by blast
qed

theorem eof_is_closed_then_evicted_witness:
  "read 1 [Recv []]
     \<lparr>server = 0, registered = {1, 0}, clients = [1, 1], closed = {}, next_sock = 2, trace = []\<rparr>
   = Returns (True, [])
       \<lparr>server = 0, registered = {1, 0}, clients = [1, 1], closed = {1}, next_sock = 2,
        trace = [Print (Text ''EOF condition reached''), Close 1]\<rparr>
   \<and> handle_event (Event 1 (Inl BlockingIOError) [Recv []])
       \<lparr>server = 0, registered = {1, 0}, clients = [1, 1], closed = {}, next_sock = 2, trace = []\<rparr>
     = Returns ()
         \<lparr>server = 0, registered = {0}, clients = [], closed = {1}, next_sock = 2,
          trace = [Print (Text ''EOF condition reached''), Close 1, Unregister 1]\<rparr>"
proof -
  have h: "read 1 [Recv []]
     \<lparr>server = 0, registered = {1, 0}, clients = [1, 1], closed = {}, next_sock = 2, trace = []\<rparr>
   = Returns (True, [])
       \<lparr>server = 0, registered = {1, 0}, clients = [1, 1], closed = {1}, next_sock = 2,
        trace = [Print (Text ''EOF condition reached''), Close 1]\<rparr>"
    by (simp add: run_defs)
  from eof_is_closed_then_evicted [OF h, of "Inl BlockingIOError"] h show ?thesis by simp
qed

text \<open>
  Claim C5. In every state in which a broadcast starts, in any run from the initial
  state, the client list holds exactly the registered sockets other than the listening
  one, and none of them is closed. A step for a client event either leaves the
  registrations and the client list as they were or removes the socket from both and
  has closed it: there is no outcome with one removal and not the other.
\<close>

theorem active_set_registered_and_open:
  "(\<forall>st \<in> set (broadcast_points polls init).
       (\<forall>c. c \<in> set (clients st) \<longleftrightarrow> c \<in> registered st \<and> c \<noteq> server st)
     \<and> (\<forall>c \<in> set (clients st). c \<notin> closed st))
   \<and> (fileobj ev \<noteq> server st \<and> final_state (handle_event ev st) = Some st' \<longrightarrow>
        (registered st' = registered st \<and> clients st' = clients st)
      \<or> (registered st' = registered st - {fileobj ev}
          \<and> clients st' = removeAll (fileobj ev) (clients st)
          \<and> fileobj ev \<in> closed st'))"
proof (rule conjI)
  show "\<forall>st \<in> set (broadcast_points polls init).
       (\<forall>c. c \<in> set (clients st) \<longleftrightarrow> c \<in> registered st \<and> c \<noteq> server st)
     \<and> (\<forall>c \<in> set (clients st). c \<notin> closed st)"
  proof (rule ballI)
    fix b
    assume "b \<in> set (broadcast_points polls init)"
    with init_inv have "conn_inv b" by (rule broadcast_points_inv)
    then show "(\<forall>c. c \<in> set (clients b) \<longleftrightarrow> c \<in> registered b \<and> c \<noteq> server b)
       \<and> (\<forall>c \<in> set (clients b). c \<notin> closed b)"
      by (auto simp add: conn_inv_def)
  qed
next
  show "fileobj ev \<noteq> server st \<and> final_state (handle_event ev st) = Some st' \<longrightarrow>
        (registered st' = registered st \<and> clients st' = clients st)
      \<or> (registered st' = registered st - {fileobj ev}
          \<and> clients st' = removeAll (fileobj ev) (clients st)
          \<and> fileobj ev \<in> closed st')"
  proof (rule impI)
    assume a: "fileobj ev \<noteq> server st \<and> final_state (handle_event ev st) = Some st'"
    then have "fileobj ev \<noteq> server st" by simp
    then show "(registered st' = registered st \<and> clients st' = clients st)
        \<or> (registered st' = registered st - {fileobj ev}
            \<and> clients st' = removeAll (fileobj ev) (clients st)
            \<and> fileobj ev \<in> closed st')"
      by (cases rule: handle_event_client) (use a in auto)
  qed
qed

theorem active_set_registered_and_open_witness:
  "broadcast_points [Poll [Event 0 (Inr (''127.0.0.1'', 50000)) []] Map.empty] init =
     [\<lparr>server = 0, registered = {1, 0}, clients = [1], closed = {}, next_sock = 2,
        trace = [Register 0, Print (Text ''Listening on localhost:7072.''), Register 1, Print (GotSocket 1 (''127.0.0.1'', 50000))]\<rparr>]
   \<and> final_state (handle_event (Event 1 (Inl BlockingIOError) [Recv []])
        \<lparr>server = 0, registered = {1, 0}, clients = [1], closed = {}, next_sock = 2, trace = []\<rparr>)
     = Some \<lparr>server = 0, registered = {0}, clients = [], closed = {1}, next_sock = 2,
             trace = [Print (Text ''EOF condition reached''), Close 1, Unregister 1]\<rparr>"
  using active_set_registered_and_open
    [of "[Poll [Event 0 (Inr (''127.0.0.1'', 50000)) []] Map.empty]" "Event 1 (Inl BlockingIOError) [Recv []]"
        "\<lparr>server = 0, registered = {1, 0}, clients = [1], closed = {}, next_sock = 2, trace = []\<rparr>"
        "\<lparr>server = 0, registered = {0}, clients = [], closed = {1}, next_sock = 2,
             trace = [Print (Text ''EOF condition reached''), Close 1, Unregister 1]\<rparr>"]
  by (simp add: run_defs)

text \<open>
  Claim C4. In every run from the initial state in which no poll reports a descriptor
  twice: a connection that was closed on end-of-stream or a read fault is in the client
  list at no later broadcast; its \<^verbatim>\<open>close\<close> is followed at once by its
  \<^verbatim>\<open>unregister\<close>, so the eviction itself raises nothing; and after that the trace,
  however the run ends, holds no further effect on that socket: no send, no second
  close, no second unregister. A later readiness report for the socket is dropped by
  \<^verbatim>\<open>sel.select\<close> and changes nothing.
\<close>

theorem evicted_connection_stays_out:
  assumes "\<forall>p \<in> set polls. distinct (map fileobj (ready p))"
  shows "(\<forall>st2 \<in> set (broadcast_points polls init).
            Close s \<in> set (trace st2) \<longrightarrow> s \<notin> set (clients st2))
       \<and> (final_state (main_loop polls init) = Some st' \<and> trace st' = xs @ Close s # ys \<longrightarrow>
            (\<exists>zs. ys = Unregister s # zs \<and> (\<forall>e \<in> set zs. \<not> touches s e)))"
proof (rule conjI)
  show "\<forall>st2 \<in> set (broadcast_points polls init).
            Close s \<in> set (trace st2) \<longrightarrow> s \<notin> set (clients st2)"
  proof (intro ballI impI)
    fix st2
    assume "st2 \<in> set (broadcast_points polls init)" and cl: "Close s \<in> set (trace st2)"
    with trace_inv_init assms have "trace_inv st2" by (blast intro: broadcast_points_trace_inv)
    with cl show "s \<notin> set (clients st2)" by (auto simp add: trace_inv_def conn_inv_def)
  qed
next
  show "final_state (main_loop polls init) = Some st' \<and> trace st' = xs @ Close s # ys \<longrightarrow>
            (\<exists>zs. ys = Unregister s # zs \<and> (\<forall>e \<in> set zs. \<not> touches s e))"
  proof
    assume a: "final_state (main_loop polls init) = Some st' \<and> trace st' = xs @ Close s # ys"
    with trace_inv_init assms have "trace_inv st'" by (blast intro: main_loop_trace_inv)
    then have "evictions_ok (trace st')" by (simp add: trace_inv_def)
    with a show "\<exists>zs. ys = Unregister s # zs \<and> (\<forall>e \<in> set zs. \<not> touches s e)"
      unfolding evictions_ok_def by blast
  qed
qed

theorem evicted_connection_stays_out_witness:
  "final_state
     (main_loop [Poll [Event 0 (Inr (''127.0.0.1'', 50000)) []] Map.empty,
                 Poll [Event 1 (Inl BlockingIOError) [Recv []]] Map.empty,
                 Poll [Event 1 (Inl BlockingIOError) [Recv []], Event 0 (Inr (''127.0.0.1'', 50001)) []] Map.empty] init)
   = Some \<lparr>server = 0, registered = {2, 0}, clients = [2], closed = {1}, next_sock = 3,
        trace = [Register 0, Print (Text ''Listening on localhost:7072.''), Register 1, Print (GotSocket 1 (''127.0.0.1'', 50000)), Send 1 PAYLOAD,
                 Print (Text ''EOF condition reached''), Close 1, Unregister 1,
                 Register 2, Print (GotSocket 2 (''127.0.0.1'', 50001)), Send 2 PAYLOAD]\<rparr>
   \<and> touches 1 (Register 2) = False
   \<and> touches 1 (Send 2 PAYLOAD) = False"
  using evicted_connection_stays_out
    [of "[Poll [Event 0 (Inr (''127.0.0.1'', 50000)) []] Map.empty,
          Poll [Event 1 (Inl BlockingIOError) [Recv []]] Map.empty,
          Poll [Event 1 (Inl BlockingIOError) [Recv []], Event 0 (Inr (''127.0.0.1'', 50001)) []] Map.empty]"
        1
        "\<lparr>server = 0, registered = {2, 0}, clients = [2], closed = {1}, next_sock = 3,
        trace = [Register 0, Print (Text ''Listening on localhost:7072.''), Register 1, Print (GotSocket 1 (''127.0.0.1'', 50000)), Send 1 PAYLOAD,
                 Print (Text ''EOF condition reached''), Close 1, Unregister 1,
                 Register 2, Print (GotSocket 2 (''127.0.0.1'', 50001)), Send 2 PAYLOAD]\<rparr>"
        "[Register 0, Print (Text ''Listening on localhost:7072.''), Register 1, Print (GotSocket 1 (''127.0.0.1'', 50000)), Send 1 PAYLOAD,
                 Print (Text ''EOF condition reached'')]"
        "[Unregister 1, Register 2, Print (GotSocket 2 (''127.0.0.1'', 50001)), Send 2 PAYLOAD]"]
  by (simp add: run_defs numeral_2_eq_2)

end
